theory Spec2Isabelle
  imports Main
begin

section \<open>Strings\<close>

text \<open>
  A Go string is a sequence of bytes; it is modelled as a \<^typ>\<open>string\<close>, one
  \<^typ>\<open>char\<close> per byte.

  \<^verbatim>\<open>strings.ToUpper\<close> belongs to Go's standard library, not to the repository.
  On a string whose bytes are all below \<^verbatim>\<open>utf8.RuneSelf\<close> (128) it maps the bytes
  \<^verbatim>\<open>'a'..'z'\<close> to \<^verbatim>\<open>'A'..'Z'\<close> by subtracting \<^verbatim>\<open>'a' - 'A'\<close> and keeps every other
  byte. On any other string it applies the Unicode case table rune by rune
  (\<^verbatim>\<open>Map(unicode.ToUpper, s)\<close>); that table is not modelled: the function it
  computes is the parameter \<open>U\<close> of \<open>ToUpper\<close>, and the theorems below hold for
  every \<open>U\<close>. The one property of \<open>U\<close> that a theorem needs is written as its
  hypothesis.
\<close>

definition upperByte :: "char \<Rightarrow> char" where
  "upperByte c =
     (let n = (of_char c :: nat)
      in if 97 \<le> n \<and> n \<le> 122 then char_of (n - 32) else c)"

definition isASCII :: "string \<Rightarrow> bool" where
  "isASCII s = (\<forall>c \<in> set s. (of_char c :: nat) < 128)"

definition ToUpper :: "(string \<Rightarrow> string) \<Rightarrow> string \<Rightarrow> string" where
  "ToUpper U s = (if isASCII s then map upperByte s else U s)"


section \<open>Data model\<close>

text \<open>\<^verbatim>\<open>type Vulnerability struct\<close>: five string fields, filled by the JSON decoder.\<close>

record Vulnerability =
  Severity :: string
  Type :: string
  Description :: string
  PackageName :: string
  ResourceName :: string

text \<open>
  \<^verbatim>\<open>type Config struct\<close>: the four string fields. The fifth field, \<^verbatim>\<open>Mutex\<close>, is
  the reader/writer lock; it carries no data and appears below as the lock
  events of the handlers and as the lock component of the interleaving model.
\<close>

record Config =
  OSChannelName :: string
  OSMinSeverity :: string
  AppChannelName :: string
  AppMinSeverity :: string

text \<open>\<^verbatim>\<open>var config = Config{...}\<close>: the value of the package variable at start.\<close>

definition config :: Config where
  "config =
     \<lparr> OSChannelName = ''#os-vulns'', OSMinSeverity = ''MEDIUM'',
       AppChannelName = ''#app-vulns'', AppMinSeverity = ''HIGH'' \<rparr>"

text \<open>\<^verbatim>\<open>var severityLevels = map[string]int{...}\<close>.\<close>

definition severityLevels :: "string \<rightharpoonup> int" where
  "severityLevels =
     [''LOW'' \<mapsto> 1, ''MEDIUM'' \<mapsto> 2, ''HIGH'' \<mapsto> 3, ''CRITICAL'' \<mapsto> 4]"

text \<open>
  The index expression \<^verbatim>\<open>severityLevels[label]\<close>: Go returns the zero value of the
  element type, here \<open>0\<close>, for a key that is not in the map, and never panics.
\<close>

definition rank :: "string \<Rightarrow> int" where
  "rank label = (case severityLevels label of None \<Rightarrow> 0 | Some n \<Rightarrow> n)"


section \<open>The routing decision\<close>

text \<open>
  \<^verbatim>\<open>processVulnerability\<close> returns nothing; what it does is call \<^verbatim>\<open>sendToSlack\<close> at most
  once. The model returns the arguments of that call, or \<open>None\<close> when no call
  is made. The configuration it reads is the argument \<open>cfg\<close>.
\<close>

definition processVulnerability ::
    "(string \<Rightarrow> string) \<Rightarrow> Config \<Rightarrow> Vulnerability \<Rightarrow> (string \<times> Vulnerability) option" where
  "processVulnerability U cfg v =
     (let severityRank = rank (ToUpper U (Severity v))
      in if Type v = ''OS'' \<and> severityRank \<ge> rank (OSMinSeverity cfg)
         then Some (OSChannelName cfg, v)
         else if Type v = ''APP'' \<and> severityRank \<ge> rank (AppMinSeverity cfg)
         then Some (AppChannelName cfg, v)
         else None)"


section \<open>The configuration handlers\<close>

text \<open>
  \<^verbatim>\<open>c.PostForm(key)\<close> of the web framework: the first value the submitted form
  gives for \<open>key\<close>, and the empty string when the form has no such field. A form is
  modelled as the map from field names to first values.
\<close>

definition PostForm :: "(string \<rightharpoonup> string) \<Rightarrow> string \<Rightarrow> string" where
  "PostForm form key = (case form key of None \<Rightarrow> [] | Some x \<Rightarrow> x)"

text \<open>
  The handler of \<^verbatim>\<open>POST /config\<close> in \<^verbatim>\<open>startWebServer\<close>: four assignments to the
  fields of the package variable, made while the write lock is held.
\<close>

definition POST_config :: "(string \<rightharpoonup> string) \<Rightarrow> Config \<Rightarrow> Config" where
  "POST_config form cfg =
     cfg\<lparr> OSChannelName := PostForm form ''os_channel'',
          OSMinSeverity := PostForm form ''os_severity'',
          AppChannelName := PostForm form ''app_channel'',
          AppMinSeverity := PostForm form ''app_severity'' \<rparr>"


section \<open>The handlers as programs over the shared configuration\<close>

text \<open>
  The package variable \<^verbatim>\<open>config\<close> is shared by the goroutines that serve requests
  and process findings. To speak about the lock, each handler is also written as
  the sequence of operations it performs on the variable and its \<^verbatim>\<open>Mutex\<close>: lock
  and unlock calls, loads and stores of single fields, and the two calls that
  leave the core, \<^verbatim>\<open>sendToSlack\<close> and \<^verbatim>\<open>tmpl.Execute\<close>. A load continues with the
  value it has read.
\<close>

datatype field = F_OSChannelName | F_OSMinSeverity | F_AppChannelName | F_AppMinSeverity

fun load :: "field \<Rightarrow> Config \<Rightarrow> string" where
  "load F_OSChannelName c = OSChannelName c"
| "load F_OSMinSeverity c = OSMinSeverity c"
| "load F_AppChannelName c = AppChannelName c"
| "load F_AppMinSeverity c = AppMinSeverity c"

fun store :: "field \<Rightarrow> string \<Rightarrow> Config \<Rightarrow> Config" where
  "store F_OSChannelName x c = c\<lparr>OSChannelName := x\<rparr>"
| "store F_OSMinSeverity x c = c\<lparr>OSMinSeverity := x\<rparr>"
| "store F_AppChannelName x c = c\<lparr>AppChannelName := x\<rparr>"
| "store F_AppMinSeverity x c = c\<lparr>AppMinSeverity := x\<rparr>"

datatype prog =
    Return
  | DoRLock prog
  | DoRUnlock prog
  | DoLock prog
  | DoUnlock prog
  | Assign field string prog
  | Load field "string \<Rightarrow> prog"
  | CallSendToSlack string Vulnerability prog
  | CallExecute Config prog

text \<open>What a goroutine has done so far, oldest event first.\<close>

datatype event =
    RLock | RUnlock | Lock | Unlock
  | Stored field string
  | Loaded field string
  | SendToSlack string Vulnerability
  | Execute Config

text \<open>
  \<^verbatim>\<open>processVulnerability\<close>: \<^verbatim>\<open>RLock\<close>, the deferred \<^verbatim>\<open>RUnlock\<close> on return, and in between
  the \<^verbatim>\<open>if\<close>/\<^verbatim>\<open>else if\<close>. The operator \<^verbatim>\<open>&&\<close> evaluates its right operand, which
  reads the threshold, only when the comparison of \<^verbatim>\<open>v.Type\<close> holds; the channel
  name is read when the arguments of \<^verbatim>\<open>sendToSlack\<close> are evaluated.
  \<open>processVulnerability_else\<close> is the \<^verbatim>\<open>else if\<close> branch.
\<close>

definition processVulnerability_else :: "int \<Rightarrow> Vulnerability \<Rightarrow> prog" where
  "processVulnerability_else severityRank v =
     (if Type v = ''APP''
      then Load F_AppMinSeverity (\<lambda>m.
             if severityRank \<ge> rank m
             then Load F_AppChannelName (\<lambda>channel.
                    CallSendToSlack channel v (DoRUnlock Return))
             else DoRUnlock Return)
      else DoRUnlock Return)"

definition processVulnerability_prog :: "(string \<Rightarrow> string) \<Rightarrow> Vulnerability \<Rightarrow> prog" where
  "processVulnerability_prog U v =
     DoRLock
       (let severityRank = rank (ToUpper U (Severity v))
        in if Type v = ''OS''
           then Load F_OSMinSeverity (\<lambda>m.
                  if severityRank \<ge> rank m
                  then Load F_OSChannelName (\<lambda>channel.
                         CallSendToSlack channel v (DoRUnlock Return))
                  else processVulnerability_else severityRank v)
           else processVulnerability_else severityRank v)"

text \<open>
  The handler of \<^verbatim>\<open>GET /config\<close>: \<^verbatim>\<open>RLock\<close>, the deferred \<^verbatim>\<open>RUnlock\<close>, and
  \<^verbatim>\<open>tmpl.Execute(c.Writer, config)\<close>, which is passed the struct by value: the four
  fields are read, then the template runs on the copy.
\<close>

definition GET_config_prog :: prog where
  "GET_config_prog =
     DoRLock
       (Load F_OSChannelName (\<lambda>a. Load F_OSMinSeverity (\<lambda>b.
        Load F_AppChannelName (\<lambda>c. Load F_AppMinSeverity (\<lambda>d.
          CallExecute \<lparr> OSChannelName = a, OSMinSeverity = b,
                        AppChannelName = c, AppMinSeverity = d \<rparr>
            (DoRUnlock Return))))))"

text \<open>
  The handler of \<^verbatim>\<open>POST /config\<close>: \<^verbatim>\<open>Lock\<close>, the deferred \<^verbatim>\<open>Unlock\<close>, and the four
  assignments in the order of the source. The redirect that follows them does not
  touch the configuration and is left out.
\<close>

definition POST_config_prog :: "(string \<rightharpoonup> string) \<Rightarrow> prog" where
  "POST_config_prog form =
     DoLock
       (Assign F_OSChannelName (PostForm form ''os_channel'')
       (Assign F_OSMinSeverity (PostForm form ''os_severity'')
       (Assign F_AppChannelName (PostForm form ''app_channel'')
       (Assign F_AppMinSeverity (PostForm form ''app_severity'')
       (DoUnlock Return)))))"

text \<open>
  A handler that runs alone, with no other goroutine between its steps: the events
  it produces and the configuration it leaves.
\<close>

definition emit :: "event \<Rightarrow> event list \<times> Config \<Rightarrow> event list \<times> Config" where
  "emit e r = (e # fst r, snd r)"

primrec run :: "prog \<Rightarrow> Config \<Rightarrow> event list \<times> Config" where
  "run Return c = ([], c)"
| "run (DoRLock p) c = emit RLock (run p c)"
| "run (DoRUnlock p) c = emit RUnlock (run p c)"
| "run (DoLock p) c = emit Lock (run p c)"
| "run (DoUnlock p) c = emit Unlock (run p c)"
| "run (Assign f x p) c = emit (Stored f x) (run p (store f x c))"
| "run (Load f k) c = emit (Loaded f (load f c)) (run (k (load f c)) c)"
| "run (CallSendToSlack channel v p) c = emit (SendToSlack channel v) (run p c)"
| "run (CallExecute d p) c = emit (Execute d) (run p c)"

text \<open>
  Whether, in a sequence of events of one goroutine, a call that leaves the core
  (\<^verbatim>\<open>sendToSlack\<close>, \<^verbatim>\<open>tmpl.Execute\<close>) is made while the goroutine holds the lock.
  \<open>held\<close> says whether it holds the lock before the first event.
\<close>

fun lockHeldAtCall :: "bool \<Rightarrow> event list \<Rightarrow> bool" where
  "lockHeldAtCall held [] = False"
| "lockHeldAtCall held (RLock # es) = lockHeldAtCall True es"
| "lockHeldAtCall held (RUnlock # es) = lockHeldAtCall False es"
| "lockHeldAtCall held (Lock # es) = lockHeldAtCall True es"
| "lockHeldAtCall held (Unlock # es) = lockHeldAtCall False es"
| "lockHeldAtCall held (Stored f x # es) = lockHeldAtCall held es"
| "lockHeldAtCall held (Loaded f x # es) = lockHeldAtCall held es"
| "lockHeldAtCall held (SendToSlack channel v # es) = (held \<or> lockHeldAtCall held es)"
| "lockHeldAtCall held (Execute d # es) = (held \<or> lockHeldAtCall held es)"


section \<open>Goroutines running together\<close>

text \<open>
  The state of the process as far as the configuration goes: the package variable,
  the state of its \<^verbatim>\<open>sync.RWMutex\<close> (whether a writer holds it, and how many readers
  do), and for every goroutine what is left of its handler and what it has done.
  \<open>fault\<close> records the fatal error that Go raises when an unlocked mutex is
  unlocked.

  One step lets goroutine \<open>i\<close> perform its next operation. The lock follows the
  contract of \<^verbatim>\<open>sync.RWMutex\<close>: \<^verbatim>\<open>RLock\<close> waits while a writer holds the lock,
  \<^verbatim>\<open>Lock\<close> waits while a writer or any reader holds it; a goroutine that has to wait
  does not move. (Go also makes new readers wait once a writer is waiting; this
  only removes schedules.) Every load and store of a field is one step, so the
  schedules range over all interleavings of single field accesses.
\<close>

record system =
  shared :: Config
  writer :: bool
  readers :: nat
  pool :: "(prog \<times> event list) list"
  fault :: bool

definition advance :: "nat \<Rightarrow> prog \<Rightarrow> event \<Rightarrow> system \<Rightarrow> system" where
  "advance i q e s = s\<lparr> pool := (pool s)[i := (q, snd (pool s ! i) @ [e])] \<rparr>"

definition step :: "nat \<Rightarrow> system \<Rightarrow> system" where
  "step i s =
     (if length (pool s) \<le> i \<or> fault s then s
      else case fst (pool s ! i) of
          Return \<Rightarrow> s
        | DoRLock q \<Rightarrow>
            if writer s then s
            else advance i q RLock (s\<lparr> readers := readers s + 1 \<rparr>)
        | DoRUnlock q \<Rightarrow>
            if readers s = 0 then s\<lparr> fault := True \<rparr>
            else advance i q RUnlock (s\<lparr> readers := readers s - 1 \<rparr>)
        | DoLock q \<Rightarrow>
            if writer s \<or> 0 < readers s then s
            else advance i q Lock (s\<lparr> writer := True \<rparr>)
        | DoUnlock q \<Rightarrow>
            if \<not> writer s then s\<lparr> fault := True \<rparr>
            else advance i q Unlock (s\<lparr> writer := False \<rparr>)
        | Assign f x q \<Rightarrow>
            advance i q (Stored f x) (s\<lparr> shared := store f x (shared s) \<rparr>)
        | Load f k \<Rightarrow>
            advance i (k (load f (shared s))) (Loaded f (load f (shared s))) s
        | CallSendToSlack channel v q \<Rightarrow> advance i q (SendToSlack channel v) s
        | CallExecute d q \<Rightarrow> advance i q (Execute d) s)"

text \<open>A schedule is the list of the goroutines that move, in order.\<close>

definition exec :: "nat list \<Rightarrow> system \<Rightarrow> system" where
  "exec sched s = fold step sched s"

text \<open>What goroutine \<open>i\<close> has done so far.\<close>

definition history :: "nat \<Rightarrow> system \<Rightarrow> event list" where
  "history i s = snd (pool s ! i)"

text \<open>
  The goroutines are the handlers of the requests and findings the process
  receives: \<^verbatim>\<open>POST /config\<close> with its form, \<^verbatim>\<open>GET /config\<close>, and a decoded finding
  handed to \<^verbatim>\<open>processVulnerability\<close>. The process starts with the default
  configuration and a free lock.
\<close>

datatype request = POST "string \<rightharpoonup> string" | GET | Finding Vulnerability

fun handler :: "(string \<Rightarrow> string) \<Rightarrow> request \<Rightarrow> prog" where
  "handler U (POST form) = POST_config_prog form"
| "handler U GET = GET_config_prog"
| "handler U (Finding v) = processVulnerability_prog U v"

definition start :: "prog list \<Rightarrow> system" where
  "start ps = \<lparr> shared = config, writer = False, readers = 0,
                pool = map (\<lambda>p. (p, [])) ps, fault = False \<rparr>"

text \<open>
  The configurations that a complete write installs: the defaults, and for every
  \<^verbatim>\<open>POST /config\<close> the configuration its form describes.
\<close>

fun written :: "request \<Rightarrow> Config list" where
  "written (POST form) = [POST_config form config]"
| "written GET = []"
| "written (Finding v) = []"

definition committed :: "request list \<Rightarrow> Config list" where
  "committed reqs = config # concat (map written reqs)"


section \<open>The invariant of the lock\<close>

text \<open>
  Where a goroutine stands is read off the rest of its handler: \<open>quiet\<close> when it
  will not touch the configuration or the lock again, \<open>inRead\<close> when it is between
  \<^verbatim>\<open>RLock\<close> and \<^verbatim>\<open>RUnlock\<close>, \<open>inWrite\<close> when it is between \<^verbatim>\<open>Lock\<close> and \<^verbatim>\<open>Unlock\<close>.
\<close>

primrec quiet :: "prog \<Rightarrow> bool" where
  "quiet Return = True"
| "quiet (DoRLock p) = False"
| "quiet (DoRUnlock p) = False"
| "quiet (DoLock p) = False"
| "quiet (DoUnlock p) = False"
| "quiet (Assign f x p) = False"
| "quiet (Load f k) = False"
| "quiet (CallSendToSlack c v p) = quiet p"
| "quiet (CallExecute d p) = quiet p"

primrec inRead :: "prog \<Rightarrow> bool" where
  "inRead Return = False"
| "inRead (DoRLock p) = False"
| "inRead (DoRUnlock p) = quiet p"
| "inRead (DoLock p) = False"
| "inRead (DoUnlock p) = False"
| "inRead (Assign f x p) = False"
| "inRead (Load f k) = (\<forall>x. inRead (k x))"
| "inRead (CallSendToSlack c v p) = inRead p"
| "inRead (CallExecute d p) = inRead p"

primrec inWrite :: "prog \<Rightarrow> bool" where
  "inWrite Return = False"
| "inWrite (DoRLock p) = False"
| "inWrite (DoRUnlock p) = False"
| "inWrite (DoLock p) = False"
| "inWrite (DoUnlock p) = quiet p"
| "inWrite (Assign f x p) = inWrite p"
| "inWrite (Load f k) = False"
| "inWrite (CallSendToSlack c v p) = inWrite p"
| "inWrite (CallExecute d p) = inWrite p"

text \<open>Every value the goroutine has read is the value the configuration \<open>c\<close> has.\<close>

definition agrees :: "event list \<Rightarrow> Config \<Rightarrow> bool" where
  "agrees h c = (\<forall>f x. Loaded f x \<in> set h \<longrightarrow> x = load f c)"

text \<open>
  A goroutine that has not started is about to take the lock: as a reader, or as a
  writer whose section, from any configuration, ends in a configuration of \<open>C\<close>.
\<close>

definition fresh :: "Config set \<Rightarrow> prog \<Rightarrow> bool" where
  "fresh C p = ((\<exists>q. p = DoRLock q \<and> inRead q)
              \<or> (\<exists>q. p = DoLock q \<and> inWrite q \<and> (\<forall>c. snd (run q c) \<in> C)))"

definition tinv :: "Config set \<Rightarrow> Config \<Rightarrow> prog \<Rightarrow> prog \<times> event list \<Rightarrow> bool" where
  "tinv C c p0 t = (case t of (p, h) \<Rightarrow>
      (fresh C p \<and> h = [] \<and> p = p0)
    \<or> (inRead p \<and> agrees h c \<and> h @ fst (run p c) = fst (run p0 c))
    \<or> (inWrite p \<and> snd (run p c) \<in> C \<and> (\<forall>f x. Loaded f x \<notin> set h)
        \<and> (\<exists>c0 \<in> C. h @ fst (run p c) = fst (run p0 c0)))
    \<or> (quiet p \<and> (\<exists>c' \<in> C. agrees h c' \<and> h @ fst (run p c') = fst (run p0 c'))))"

definition Inv :: "Config set \<Rightarrow> prog list \<Rightarrow> system \<Rightarrow> bool" where
  "Inv C ps s \<longleftrightarrow>
      \<not> fault s
    \<and> readers s = length (filter (\<lambda>t. inRead (fst t)) (pool s))
    \<and> length (filter (\<lambda>t. inWrite (fst t)) (pool s)) = (if writer s then 1 else 0)
    \<and> (writer s \<longrightarrow> readers s = 0)
    \<and> (\<not> writer s \<longrightarrow> shared s \<in> C)
    \<and> length ps = length (pool s)
    \<and> (\<forall>j < length (pool s). tinv C (shared s) (ps ! j) (pool s ! j))"


section \<open>Helper facts\<close>

lemma rank_known:
  "rank ''LOW'' = 1" "rank ''MEDIUM'' = 2" "rank ''HIGH'' = 3" "rank ''CRITICAL'' = 4"
  by (simp_all add: rank_def severityLevels_def)

lemma rank_unknown:
  "s \<notin> {''LOW'', ''MEDIUM'', ''HIGH'', ''CRITICAL''} \<Longrightarrow> rank s = 0"
  by (simp add: rank_def severityLevels_def)

lemma rank_range: "0 \<le> rank s \<and> rank s \<le> 4"
  by (simp add: rank_def severityLevels_def)

lemma rank_pos_iff:
  "0 < rank s \<longleftrightarrow> s \<in> {''LOW'', ''MEDIUM'', ''HIGH'', ''CRITICAL''}"
  by (simp add: rank_def severityLevels_def)


lemma upperByte_not_lower:
  "(of_char (upperByte c) :: nat) < 97 \<or> 122 < (of_char (upperByte c) :: nat)"
  unfolding upperByte_def Let_def by (auto simp: of_char_of)

lemma upperByte_idem: "upperByte (upperByte c) = upperByte c"
  using upperByte_not_lower [of c] by (auto simp: upperByte_def [of "upperByte c"] Let_def)

lemma upperByte_ASCII: "(of_char c :: nat) < 128 \<Longrightarrow> (of_char (upperByte c) :: nat) < 128"
  unfolding upperByte_def Let_def by (auto simp: of_char_of)

lemma isASCII_map_upperByte: "isASCII s \<Longrightarrow> isASCII (map upperByte s)"
  by (auto simp: isASCII_def upperByte_ASCII)

lemma ToUpper_idem_ASCII: "isASCII s \<Longrightarrow> ToUpper U (ToUpper U s) = ToUpper U s"
  by (simp add: ToUpper_def isASCII_map_upperByte upperByte_idem)

lemmas eval_upper = ToUpper_def isASCII_def upperByte_def char_of_def bit_Suc_0_iff

lemma ToUpper_examples:
  "ToUpper U ''unknown'' = ''UNKNOWN''"
  "ToUpper U ''medium'' = ''MEDIUM''"
  "ToUpper U ''low'' = ''LOW''"
  "ToUpper U ''LOW'' = ''LOW''"
  "ToUpper U ''HIGH'' = ''HIGH''"
  "ToUpper U ''CRITICAL'' = ''CRITICAL''"
  "ToUpper U ''os'' = ''OS''"
  by (simp_all add: eval_upper)


section \<open>The severity scale\<close>

text \<open>
  C4. The rank of a severity label is defined for every string: \<open>LOW\<close> has rank 1,
  \<open>MEDIUM\<close> 2, \<open>HIGH\<close> 3, \<open>CRITICAL\<close> 4, and every other string, the empty one
  included, has rank 0. \<open>rank\<close> is a total function with values in \<^typ>\<open>int\<close>:
  there is no input on which it fails.
\<close>

theorem rank_table:
  "rank ''LOW'' = 1 \<and> rank ''MEDIUM'' = 2 \<and> rank ''HIGH'' = 3 \<and> rank ''CRITICAL'' = 4
   \<and> rank [] = 0
   \<and> (\<forall>s. s \<notin> {''LOW'', ''MEDIUM'', ''HIGH'', ''CRITICAL''} \<longrightarrow> rank s = 0)"
  by (simp add: rank_def severityLevels_def)

theorem rank_table_witness:
  "''medium'' \<notin> {''LOW'', ''MEDIUM'', ''HIGH'', ''CRITICAL''} \<and> rank ''medium'' = 0
   \<and> rank ''CRITICAL'' = 4"
  using rank_table by simp

section \<open>The decision\<close>

text \<open>
  C1, as the code has it. Take a finding whose severity, once uppercased, is none
  of \<open>LOW\<close>, \<open>MEDIUM\<close>, \<open>HIGH\<close>, \<open>CRITICAL\<close>. It is not dispatched exactly when
  the threshold configured for its category is one of the four labels (a finding
  of a category other than \<open>OS\<close> and \<open>APP\<close> has no threshold and is not dispatched).
  The threshold matters: under a threshold that is itself not a label the finding
  is dispatched.
\<close>

theorem unknown_severity_dispatch:
  assumes "ToUpper U (Severity v) \<notin> {''LOW'', ''MEDIUM'', ''HIGH'', ''CRITICAL''}"
  shows "processVulnerability U cfg v = None \<longleftrightarrow>
           (Type v = ''OS'' \<longrightarrow>
              OSMinSeverity cfg \<in> {''LOW'', ''MEDIUM'', ''HIGH'', ''CRITICAL''})
         \<and> (Type v = ''APP'' \<longrightarrow>
              AppMinSeverity cfg \<in> {''LOW'', ''MEDIUM'', ''HIGH'', ''CRITICAL''})"
proof -
  have r0: "rank (ToUpper U (Severity v)) = 0"
    using assms by (rule rank_unknown)
  have os: "0 \<ge> rank (OSMinSeverity cfg) \<longleftrightarrow>
      OSMinSeverity cfg \<notin> {''LOW'', ''MEDIUM'', ''HIGH'', ''CRITICAL''}"
    using rank_pos_iff [of "OSMinSeverity cfg"] by linarith
  have app: "0 \<ge> rank (AppMinSeverity cfg) \<longleftrightarrow>
      AppMinSeverity cfg \<notin> {''LOW'', ''MEDIUM'', ''HIGH'', ''CRITICAL''}"
    using rank_pos_iff [of "AppMinSeverity cfg"] by linarith
  show ?thesis
    unfolding processVulnerability_def Let_def r0 os app by auto
qed

theorem unknown_severity_dispatch_witness:
  "ToUpper id ''unknown'' \<notin> {''LOW'', ''MEDIUM'', ''HIGH'', ''CRITICAL''}
   \<and> OSMinSeverity config \<in> {''LOW'', ''MEDIUM'', ''HIGH'', ''CRITICAL''}
   \<and> processVulnerability id config
        \<lparr> Severity = ''unknown'', Type = ''OS'', Description = ''d'',
          PackageName = ''p'', ResourceName = ''r'' \<rparr> = None"
proof -
  have h: "ToUpper id (Severity \<lparr> Severity = ''unknown'', Type = ''OS'', Description = ''d'',
      PackageName = ''p'', ResourceName = ''r'' \<rparr>)
        \<notin> {''LOW'', ''MEDIUM'', ''HIGH'', ''CRITICAL''}"
    by (simp add: ToUpper_examples)
  show ?thesis
    using h unknown_severity_dispatch [OF h, of config] by (simp add: config_def)
qed

text \<open>
  The claim as it is written fails: the operator posts a form whose \<open>os_severity\<close>
  is \<open>medium\<close> in lower case; the finding of severity \<open>unknown\<close> and category \<open>OS\<close>
  is then sent to the OS channel.
\<close>

theorem unknown_severity_counterexample:
  "ToUpper id ''unknown'' \<notin> {''LOW'', ''MEDIUM'', ''HIGH'', ''CRITICAL''}
   \<and> processVulnerability id
        (POST_config (map_of [(''os_channel'', ''#os-vulns''), (''os_severity'', ''medium''),
                              (''app_channel'', ''#app-vulns''), (''app_severity'', ''HIGH'')])
           config)
        \<lparr> Severity = ''unknown'', Type = ''OS'', Description = ''d'',
          PackageName = ''p'', ResourceName = ''r'' \<rparr>
     = Some (''#os-vulns'', \<lparr> Severity = ''unknown'', Type = ''OS'', Description = ''d'',
          PackageName = ''p'', ResourceName = ''r'' \<rparr>)"
  by (simp add: processVulnerability_def POST_config_def PostForm_def ToUpper_examples
      rank_def severityLevels_def)

text \<open>
  C2. For a finding of category \<open>OS\<close> (of category \<open>APP\<close>) under a threshold that is
  one of the four labels, the finding is sent to the OS channel (the APP channel)
  if and only if the rank of its uppercased severity is at least the rank of the
  threshold. A finding whose rank equals the rank of the threshold is sent; a
  finding of lower rank is not sent anywhere.
\<close>

theorem threshold_inclusive:
  "(Type v = ''OS'' \<and> OSMinSeverity cfg \<in> {''LOW'', ''MEDIUM'', ''HIGH'', ''CRITICAL''} \<longrightarrow>
      (processVulnerability U cfg v = Some (OSChannelName cfg, v)
         \<longleftrightarrow> rank (ToUpper U (Severity v)) \<ge> rank (OSMinSeverity cfg))
    \<and> (rank (ToUpper U (Severity v)) = rank (OSMinSeverity cfg)
         \<longrightarrow> processVulnerability U cfg v = Some (OSChannelName cfg, v))
    \<and> (rank (ToUpper U (Severity v)) < rank (OSMinSeverity cfg)
         \<longrightarrow> processVulnerability U cfg v = None))
 \<and> (Type v = ''APP'' \<and> AppMinSeverity cfg \<in> {''LOW'', ''MEDIUM'', ''HIGH'', ''CRITICAL''} \<longrightarrow>
      (processVulnerability U cfg v = Some (AppChannelName cfg, v)
         \<longleftrightarrow> rank (ToUpper U (Severity v)) \<ge> rank (AppMinSeverity cfg))
    \<and> (rank (ToUpper U (Severity v)) = rank (AppMinSeverity cfg)
         \<longrightarrow> processVulnerability U cfg v = Some (AppChannelName cfg, v))
    \<and> (rank (ToUpper U (Severity v)) < rank (AppMinSeverity cfg)
         \<longrightarrow> processVulnerability U cfg v = None))"
  by (simp add: processVulnerability_def Let_def)

theorem threshold_inclusive_witness:
  "OSMinSeverity config \<in> {''LOW'', ''MEDIUM'', ''HIGH'', ''CRITICAL''}
   \<and> rank (ToUpper id ''medium'') = rank (OSMinSeverity config)
   \<and> processVulnerability id config
      \<lparr> Severity = ''medium'', Type = ''OS'', Description = ''d'',
        PackageName = ''p'', ResourceName = ''r'' \<rparr>
     = Some (''#os-vulns'', \<lparr> Severity = ''medium'', Type = ''OS'', Description = ''d'',
        PackageName = ''p'', ResourceName = ''r'' \<rparr>)
   \<and> AppMinSeverity config \<in> {''LOW'', ''MEDIUM'', ''HIGH'', ''CRITICAL''}
   \<and> rank (ToUpper id ''medium'') < rank (AppMinSeverity config)
   \<and> processVulnerability id config
      \<lparr> Severity = ''medium'', Type = ''APP'', Description = ''d'',
        PackageName = ''p'', ResourceName = ''r'' \<rparr> = None"
  using threshold_inclusive [of "\<lparr> Severity = ''medium'', Type = ''OS'', Description = ''d'',
        PackageName = ''p'', ResourceName = ''r'' \<rparr>" config id]
    threshold_inclusive [of "\<lparr> Severity = ''medium'', Type = ''APP'', Description = ''d'',
        PackageName = ''p'', ResourceName = ''r'' \<rparr>" config id]
  by (simp add: config_def ToUpper_examples rank_known)

text \<open>
  C5. A finding whose category is neither \<open>OS\<close> nor \<open>APP\<close> is not dispatched,
  whatever its severity and whatever the configuration.
\<close>

theorem unknown_category_no_dispatch:
  "Type v \<notin> {''OS'', ''APP''} \<Longrightarrow> processVulnerability U cfg v = None"
  by (simp add: processVulnerability_def Let_def)

theorem unknown_category_no_dispatch_witness:
  "''NETWORK'' \<notin> {''OS'', ''APP''}
   \<and> processVulnerability id config
      \<lparr> Severity = ''HIGH'', Type = ''NETWORK'', Description = ''d'',
        PackageName = ''p'', ResourceName = ''r'' \<rparr> = None"
  using unknown_category_no_dispatch [of "\<lparr> Severity = ''HIGH'', Type = ''NETWORK'',
        Description = ''d'', PackageName = ''p'', ResourceName = ''r'' \<rparr>" id config]
  by simp


text \<open>
  C8. When the threshold configured for a category is not one of the four labels
  written in upper case, every finding of that category is dispatched to the
  category's channel, also a finding whose own severity is not a label: both ranks
  are 0. The lower-case \<open>medium\<close> and the empty string are such thresholds, and
  the empty string is what a form without the severity field installs.
\<close>

theorem unknown_threshold_always_dispatches:
  "(Type v = ''OS'' \<and> OSMinSeverity cfg \<notin> {''LOW'', ''MEDIUM'', ''HIGH'', ''CRITICAL''}
      \<longrightarrow> processVulnerability U cfg v = Some (OSChannelName cfg, v))
 \<and> (Type v = ''APP'' \<and> AppMinSeverity cfg \<notin> {''LOW'', ''MEDIUM'', ''HIGH'', ''CRITICAL''}
      \<longrightarrow> processVulnerability U cfg v = Some (AppChannelName cfg, v))
 \<and> (Type v = ''OS'' \<and> form ''os_severity'' = None
      \<longrightarrow> processVulnerability U (POST_config form cfg) v
            = Some (PostForm form ''os_channel'', v))
 \<and> (Type v = ''APP'' \<and> form ''app_severity'' = None
      \<longrightarrow> processVulnerability U (POST_config form cfg) v
            = Some (PostForm form ''app_channel'', v))
 \<and> ''medium'' \<notin> {''LOW'', ''MEDIUM'', ''HIGH'', ''CRITICAL''}
 \<and> [] \<notin> {''LOW'', ''MEDIUM'', ''HIGH'', ''CRITICAL''}"
proof -
  have z: "\<And>s t. s \<notin> {''LOW'', ''MEDIUM'', ''HIGH'', ''CRITICAL''} \<Longrightarrow> rank s \<le> rank t"
    using rank_unknown rank_range by metis
  have e: "rank [] = 0"
    by (simp add: rank_unknown)
  show ?thesis
    using rank_range [of "ToUpper U (Severity v)"]
    by (auto simp: processVulnerability_def Let_def z POST_config_def PostForm_def e)
qed

theorem unknown_threshold_always_dispatches_witness:
  "map_of [(''os_channel'', ''#os-vulns'')] ''os_severity'' = None
   \<and> processVulnerability id
      (POST_config (map_of [(''os_channel'', ''#os-vulns'')]) config)
      \<lparr> Severity = ''unknown'', Type = ''OS'', Description = ''d'',
        PackageName = ''p'', ResourceName = ''r'' \<rparr>
     = Some (''#os-vulns'', \<lparr> Severity = ''unknown'', Type = ''OS'', Description = ''d'',
        PackageName = ''p'', ResourceName = ''r'' \<rparr>)
   \<and> ''high'' \<notin> {''LOW'', ''MEDIUM'', ''HIGH'', ''CRITICAL''}
   \<and> processVulnerability id (config \<lparr> AppMinSeverity := ''high'' \<rparr>)
      \<lparr> Severity = ''LOW'', Type = ''APP'', Description = ''d'',
        PackageName = ''p'', ResourceName = ''r'' \<rparr>
     = Some (''#app-vulns'', \<lparr> Severity = ''LOW'', Type = ''APP'', Description = ''d'',
        PackageName = ''p'', ResourceName = ''r'' \<rparr>)"
  using unknown_threshold_always_dispatches [of "\<lparr> Severity = ''unknown'', Type = ''OS'',
        Description = ''d'', PackageName = ''p'', ResourceName = ''r'' \<rparr>" config id
        "map_of [(''os_channel'', ''#os-vulns'')]"]
    unknown_threshold_always_dispatches [of "\<lparr> Severity = ''LOW'', Type = ''APP'',
        Description = ''d'', PackageName = ''p'', ResourceName = ''r'' \<rparr>"
        "config \<lparr> AppMinSeverity := ''high'' \<rparr>" id "map_of [(''os_channel'', ''#os-vulns'')]"]
  by (simp add: config_def PostForm_def)

text \<open>
  C9. The severity is compared after uppercasing, the category as it is. Replacing
  the severity of a finding by its uppercased form changes neither whether the
  finding is dispatched nor the channel; this is proved for every severity made
  of ASCII bytes, and for any other severity on which the Unicode case mapping of
  the library, applied twice, gives what it gives once. A finding whose category
  uppercases to \<open>OS\<close> or \<open>APP\<close> without being exactly \<open>OS\<close> or \<open>APP\<close> is not
  dispatched.
\<close>

theorem case_sensitivity:
  "(isASCII (Severity v) \<or> ToUpper U (U (Severity v)) = U (Severity v) \<longrightarrow>
      map_option fst (processVulnerability U cfg (v \<lparr> Severity := ToUpper U (Severity v) \<rparr>))
        = map_option fst (processVulnerability U cfg v))
 \<and> (ToUpper U (Type v) \<in> {''OS'', ''APP''} \<and> Type v \<notin> {''OS'', ''APP''}
      \<longrightarrow> processVulnerability U cfg v = None)"
proof -
  have "ToUpper U (ToUpper U (Severity v)) = ToUpper U (Severity v)"
    if "isASCII (Severity v) \<or> ToUpper U (U (Severity v)) = U (Severity v)"
  proof (cases "isASCII (Severity v)")
    case True
    then show ?thesis by (rule ToUpper_idem_ASCII)
  next
    case False
    with that show ?thesis by (simp add: ToUpper_def [of U "Severity v"])
  qed
  then show ?thesis
    by (simp add: processVulnerability_def Let_def)
qed

theorem case_sensitivity_witness:
  "isASCII ''medium''
   \<and> map_option fst (processVulnerability id config
      \<lparr> Severity = ''MEDIUM'', Type = ''OS'', Description = ''d'',
        PackageName = ''p'', ResourceName = ''r'' \<rparr>)
    = map_option fst (processVulnerability id config
      \<lparr> Severity = ''medium'', Type = ''OS'', Description = ''d'',
        PackageName = ''p'', ResourceName = ''r'' \<rparr>)
   \<and> ToUpper id ''os'' \<in> {''OS'', ''APP''} \<and> ''os'' \<notin> {''OS'', ''APP''}
   \<and> processVulnerability id config
      \<lparr> Severity = ''CRITICAL'', Type = ''os'', Description = ''d'',
        PackageName = ''p'', ResourceName = ''r'' \<rparr> = None"
  using case_sensitivity [of "\<lparr> Severity = ''medium'', Type = ''OS'', Description = ''d'',
        PackageName = ''p'', ResourceName = ''r'' \<rparr>" id config]
    case_sensitivity [of "\<lparr> Severity = ''CRITICAL'', Type = ''os'', Description = ''d'',
        PackageName = ''p'', ResourceName = ''r'' \<rparr>" id config]
  by (simp add: ToUpper_examples isASCII_def)

text \<open>
  C10. Two findings with the same severity and the same category get the same
  decision under the same configuration, whatever their description, package name
  and resource name: both are dispatched or neither is, and to the same channel.
\<close>

theorem decision_depends_on_severity_and_category:
  "Severity v1 = Severity v2 \<Longrightarrow> Type v1 = Type v2 \<Longrightarrow>
     map_option fst (processVulnerability U cfg v1)
       = map_option fst (processVulnerability U cfg v2)
   \<and> (processVulnerability U cfg v1 = None \<longleftrightarrow> processVulnerability U cfg v2 = None)"
  by (simp add: processVulnerability_def Let_def)

theorem decision_depends_on_severity_and_category_witness:
  "map_option fst (processVulnerability id config
      \<lparr> Severity = ''HIGH'', Type = ''APP'', Description = ''d1'',
        PackageName = ''p1'', ResourceName = ''r1'' \<rparr>)
    = map_option fst (processVulnerability id config
      \<lparr> Severity = ''HIGH'', Type = ''APP'', Description = ''d2'',
        PackageName = ''p2'', ResourceName = ''r2'' \<rparr>)
   \<and> map_option fst (processVulnerability id config
      \<lparr> Severity = ''HIGH'', Type = ''APP'', Description = ''d2'',
        PackageName = ''p2'', ResourceName = ''r2'' \<rparr>) = Some ''#app-vulns''"
proof -
  have "map_option fst (processVulnerability id config
      \<lparr> Severity = ''HIGH'', Type = ''APP'', Description = ''d2'',
        PackageName = ''p2'', ResourceName = ''r2'' \<rparr>) = Some ''#app-vulns''"
    by (simp add: processVulnerability_def config_def ToUpper_examples rank_known)
  then show ?thesis
    using decision_depends_on_severity_and_category [of
      "\<lparr> Severity = ''HIGH'', Type = ''APP'', Description = ''d1'',
        PackageName = ''p1'', ResourceName = ''r1'' \<rparr>"
      "\<lparr> Severity = ''HIGH'', Type = ''APP'', Description = ''d2'',
        PackageName = ''p2'', ResourceName = ''r2'' \<rparr>" id config]
    by simp
qed


section \<open>Replacing the configuration\<close>

lemma POST_config_any: "POST_config form c = POST_config form config"
  by (cases c) (simp add: POST_config_def config_def)

lemma fst_emit [simp]: "fst (emit e r) = e # fst r"
  by (simp add: emit_def)

lemma snd_emit [simp]: "snd (emit e r) = snd r"
  by (simp add: emit_def)

lemma run_POST_config_prog: "snd (run (POST_config_prog form) c) = POST_config form c"
  by (simp add: POST_config_prog_def POST_config_def)

text \<open>
  C3, as the code has it. The only replacement is \<^verbatim>\<open>POST /config\<close>, and it replaces
  the rules of both categories at once: after it the rule of \<open>OS\<close> is the pair of
  the form fields \<open>os_channel\<close> and \<open>os_severity\<close>, the rule of \<open>APP\<close> the pair of
  \<open>app_channel\<close> and \<open>app_severity\<close>, a field the form lacks being the empty
  string. The new configuration does not depend on the one it replaces, posting
  the same form again changes nothing, and it is what the handler leaves in the
  package variable for every later read. The rule of a category is left as it was
  exactly when the form carries the channel and the threshold that the category
  already has.
\<close>

theorem POST_config_replaces_both_rules:
  "(OSChannelName (POST_config form cfg), OSMinSeverity (POST_config form cfg))
      = (PostForm form ''os_channel'', PostForm form ''os_severity'')
   \<and> (AppChannelName (POST_config form cfg), AppMinSeverity (POST_config form cfg))
      = (PostForm form ''app_channel'', PostForm form ''app_severity'')
   \<and> POST_config form cfg = POST_config form cfg'
   \<and> POST_config form (POST_config form cfg) = POST_config form cfg
   \<and> snd (run (POST_config_prog form) cfg) = POST_config form cfg
   \<and> ((OSChannelName (POST_config form cfg), OSMinSeverity (POST_config form cfg))
        = (OSChannelName cfg, OSMinSeverity cfg)
      \<longleftrightarrow> PostForm form ''os_channel'' = OSChannelName cfg
        \<and> PostForm form ''os_severity'' = OSMinSeverity cfg)
   \<and> ((AppChannelName (POST_config form cfg), AppMinSeverity (POST_config form cfg))
        = (AppChannelName cfg, AppMinSeverity cfg)
      \<longleftrightarrow> PostForm form ''app_channel'' = AppChannelName cfg
        \<and> PostForm form ''app_severity'' = AppMinSeverity cfg)"
proof -
  have "POST_config form cfg = POST_config form cfg'"
    using POST_config_any [of form cfg] POST_config_any [of form cfg'] by simp
  moreover have "POST_config form (POST_config form cfg) = POST_config form cfg"
    using POST_config_any [of form "POST_config form cfg"] POST_config_any [of form cfg]
    by simp
  moreover have "snd (run (POST_config_prog form) cfg) = POST_config form cfg"
    by (rule run_POST_config_prog)
  ultimately show ?thesis
    by (simp add: POST_config_def)
qed

text \<open>
  The claim as it is written fails: a form that carries a new rule for \<open>OS\<close> and
  nothing else installs that rule and empties the rule of \<open>APP\<close>.
\<close>

theorem POST_config_frame_counterexample:
  "(OSChannelName (POST_config (map_of [(''os_channel'', ''#sec''), (''os_severity'', ''LOW'')])
        config),
    OSMinSeverity (POST_config (map_of [(''os_channel'', ''#sec''), (''os_severity'', ''LOW'')])
        config)) = (''#sec'', ''LOW'')
   \<and> (AppChannelName config, AppMinSeverity config) = (''#app-vulns'', ''HIGH'')
   \<and> (AppChannelName (POST_config (map_of [(''os_channel'', ''#sec''), (''os_severity'', ''LOW'')])
        config),
      AppMinSeverity (POST_config (map_of [(''os_channel'', ''#sec''), (''os_severity'', ''LOW'')])
        config)) = ([], [])"
  by (simp add: POST_config_def PostForm_def config_def)


section \<open>The lock around the decision\<close>

text \<open>
  Run alone on a configuration, the program of \<^verbatim>\<open>processVulnerability\<close> makes the
  call that \<open>processVulnerability\<close> computes, and leaves the configuration as it
  found it.
\<close>

lemma run_processVulnerability_prog:
  "fst (run (processVulnerability_prog U v) cfg) =
     (case processVulnerability U cfg v of
        None \<Rightarrow>
          if Type v = ''OS''
          then [RLock, Loaded F_OSMinSeverity (OSMinSeverity cfg), RUnlock]
          else if Type v = ''APP''
          then [RLock, Loaded F_AppMinSeverity (AppMinSeverity cfg), RUnlock]
          else [RLock, RUnlock]
      | Some (channel, w) \<Rightarrow>
          if Type v = ''OS''
          then [RLock, Loaded F_OSMinSeverity (OSMinSeverity cfg),
                Loaded F_OSChannelName channel, SendToSlack channel w, RUnlock]
          else [RLock, Loaded F_AppMinSeverity (AppMinSeverity cfg),
                Loaded F_AppChannelName channel, SendToSlack channel w, RUnlock])"
  by (auto simp: processVulnerability_prog_def processVulnerability_else_def
      processVulnerability_def Let_def)

lemma run_processVulnerability_config: "snd (run (processVulnerability_prog U v) cfg) = cfg"
  by (simp add: processVulnerability_prog_def processVulnerability_else_def Let_def)

text \<open>
  C7, as the code has it. No reader copies fields out and unlocks before it goes
  on. The events of \<^verbatim>\<open>processVulnerability\<close> on a configuration are exactly these:
  the read lock first; then the read of the threshold of the finding's category
  (no read for a category other than \<open>OS\<close> and \<open>APP\<close>); when the finding is
  dispatched, the read of the channel and the call of \<^verbatim>\<open>sendToSlack\<close> with that
  channel; and the unlock last, on return. There is one lock and one unlock, so
  the read lock is released only on return and the call of \<^verbatim>\<open>sendToSlack\<close> is made
  with the read lock held; a call is made with the lock held exactly when the
  finding is dispatched. The events of the handler of \<^verbatim>\<open>GET /config\<close> are the read
  lock, the reads of the four fields, the run of the template on what was read,
  and the unlock: the template runs with the read lock held. Neither reader
  changes the configuration.
\<close>

theorem lock_held_across_dispatch:
  "fst (run (processVulnerability_prog U v) cfg) =
     (case processVulnerability U cfg v of
        None \<Rightarrow>
          if Type v = ''OS''
          then [RLock, Loaded F_OSMinSeverity (OSMinSeverity cfg), RUnlock]
          else if Type v = ''APP''
          then [RLock, Loaded F_AppMinSeverity (AppMinSeverity cfg), RUnlock]
          else [RLock, RUnlock]
      | Some (channel, w) \<Rightarrow>
          if Type v = ''OS''
          then [RLock, Loaded F_OSMinSeverity (OSMinSeverity cfg),
                Loaded F_OSChannelName (OSChannelName cfg),
                SendToSlack (OSChannelName cfg) v, RUnlock]
          else [RLock, Loaded F_AppMinSeverity (AppMinSeverity cfg),
                Loaded F_AppChannelName (AppChannelName cfg),
                SendToSlack (AppChannelName cfg) v, RUnlock])
   \<and> fst (run GET_config_prog cfg) =
        [RLock, Loaded F_OSChannelName (OSChannelName cfg),
         Loaded F_OSMinSeverity (OSMinSeverity cfg),
         Loaded F_AppChannelName (AppChannelName cfg),
         Loaded F_AppMinSeverity (AppMinSeverity cfg),
         Execute cfg, RUnlock]
   \<and> (lockHeldAtCall False (fst (run (processVulnerability_prog U v) cfg))
        \<longleftrightarrow> processVulnerability U cfg v \<noteq> None)
   \<and> lockHeldAtCall False (fst (run GET_config_prog cfg))
   \<and> snd (run (processVulnerability_prog U v) cfg) = cfg
   \<and> snd (run GET_config_prog cfg) = cfg"
proof -
  have pv: "fst (run (processVulnerability_prog U v) cfg) =
     (case processVulnerability U cfg v of
        None \<Rightarrow>
          if Type v = ''OS''
          then [RLock, Loaded F_OSMinSeverity (OSMinSeverity cfg), RUnlock]
          else if Type v = ''APP''
          then [RLock, Loaded F_AppMinSeverity (AppMinSeverity cfg), RUnlock]
          else [RLock, RUnlock]
      | Some (channel, w) \<Rightarrow>
          if Type v = ''OS''
          then [RLock, Loaded F_OSMinSeverity (OSMinSeverity cfg),
                Loaded F_OSChannelName (OSChannelName cfg),
                SendToSlack (OSChannelName cfg) v, RUnlock]
          else [RLock, Loaded F_AppMinSeverity (AppMinSeverity cfg),
                Loaded F_AppChannelName (AppChannelName cfg),
                SendToSlack (AppChannelName cfg) v, RUnlock])"
    by (auto simp: processVulnerability_prog_def processVulnerability_else_def
        processVulnerability_def Let_def)
  have get: "fst (run GET_config_prog cfg) =
        [RLock, Loaded F_OSChannelName (OSChannelName cfg),
         Loaded F_OSMinSeverity (OSMinSeverity cfg),
         Loaded F_AppChannelName (AppChannelName cfg),
         Loaded F_AppMinSeverity (AppMinSeverity cfg),
         Execute cfg, RUnlock]"
    by (cases cfg) (simp add: GET_config_prog_def)
  have held: "lockHeldAtCall False (fst (run (processVulnerability_prog U v) cfg))
        \<longleftrightarrow> processVulnerability U cfg v \<noteq> None"
    unfolding pv by (auto split: option.splits)
  have gheld: "lockHeldAtCall False (fst (run GET_config_prog cfg))"
    unfolding get by simp
  have same: "snd (run (processVulnerability_prog U v) cfg) = cfg"
    by (simp add: processVulnerability_prog_def processVulnerability_else_def Let_def)
  have gsame: "snd (run GET_config_prog cfg) = cfg"
    by (simp add: GET_config_prog_def)
  show ?thesis
    using pv get held gheld same gsame by blast
qed

theorem lock_held_across_dispatch_witness:
  "processVulnerability id config
      \<lparr> Severity = ''CRITICAL'', Type = ''APP'', Description = ''d'',
        PackageName = ''p'', ResourceName = ''r'' \<rparr>
     = Some (''#app-vulns'', \<lparr> Severity = ''CRITICAL'', Type = ''APP'', Description = ''d'',
        PackageName = ''p'', ResourceName = ''r'' \<rparr>)
   \<and> fst (run (processVulnerability_prog id
        \<lparr> Severity = ''CRITICAL'', Type = ''APP'', Description = ''d'',
          PackageName = ''p'', ResourceName = ''r'' \<rparr>) config)
     = [RLock, Loaded F_AppMinSeverity ''HIGH'', Loaded F_AppChannelName ''#app-vulns'',
        SendToSlack ''#app-vulns'' \<lparr> Severity = ''CRITICAL'', Type = ''APP'',
          Description = ''d'', PackageName = ''p'', ResourceName = ''r'' \<rparr>,
        RUnlock]
   \<and> lockHeldAtCall False (fst (run (processVulnerability_prog id
        \<lparr> Severity = ''CRITICAL'', Type = ''APP'', Description = ''d'',
          PackageName = ''p'', ResourceName = ''r'' \<rparr>) config))
   \<and> processVulnerability id config
      \<lparr> Severity = ''low'', Type = ''OS'', Description = ''d'',
        PackageName = ''p'', ResourceName = ''r'' \<rparr> = None
   \<and> fst (run (processVulnerability_prog id
        \<lparr> Severity = ''low'', Type = ''OS'', Description = ''d'',
          PackageName = ''p'', ResourceName = ''r'' \<rparr>) config)
     = [RLock, Loaded F_OSMinSeverity ''MEDIUM'', RUnlock]
   \<and> \<not> lockHeldAtCall False (fst (run (processVulnerability_prog id
        \<lparr> Severity = ''low'', Type = ''OS'', Description = ''d'',
          PackageName = ''p'', ResourceName = ''r'' \<rparr>) config))"
proof -
  have a: "processVulnerability id config
      \<lparr> Severity = ''CRITICAL'', Type = ''APP'', Description = ''d'',
        PackageName = ''p'', ResourceName = ''r'' \<rparr>
     = Some (''#app-vulns'', \<lparr> Severity = ''CRITICAL'', Type = ''APP'', Description = ''d'',
        PackageName = ''p'', ResourceName = ''r'' \<rparr>)"
    by (simp add: processVulnerability_def config_def ToUpper_examples rank_known)
  have b: "processVulnerability id config
      \<lparr> Severity = ''low'', Type = ''OS'', Description = ''d'',
        PackageName = ''p'', ResourceName = ''r'' \<rparr> = None"
    by (simp add: processVulnerability_def config_def ToUpper_examples rank_known)
  have c: "OSMinSeverity config = ''MEDIUM''" "AppMinSeverity config = ''HIGH''"
    "AppChannelName config = ''#app-vulns''"
    by (simp_all add: config_def)
  show ?thesis
    using a b c
      lock_held_across_dispatch [of id "\<lparr> Severity = ''CRITICAL'', Type = ''APP'',
        Description = ''d'', PackageName = ''p'', ResourceName = ''r'' \<rparr>" config]
      lock_held_across_dispatch [of id "\<lparr> Severity = ''low'', Type = ''OS'',
        Description = ''d'', PackageName = ''p'', ResourceName = ''r'' \<rparr>" config]
    by simp
qed

text \<open>
  The claim as it is written fails: under the default configuration the finding of
  severity \<open>HIGH\<close> and category \<open>OS\<close> is sent between \<^verbatim>\<open>RLock\<close> and \<^verbatim>\<open>RUnlock\<close>.
\<close>

theorem lock_held_across_dispatch_counterexample:
  "fst (run (processVulnerability_prog id
          \<lparr> Severity = ''HIGH'', Type = ''OS'', Description = ''d'',
            PackageName = ''p'', ResourceName = ''r'' \<rparr>) config)
     = [RLock, Loaded F_OSMinSeverity ''MEDIUM'', Loaded F_OSChannelName ''#os-vulns'',
        SendToSlack ''#os-vulns'' \<lparr> Severity = ''HIGH'', Type = ''OS'', Description = ''d'',
            PackageName = ''p'', ResourceName = ''r'' \<rparr>,
        RUnlock]
   \<and> lockHeldAtCall False (fst (run (processVulnerability_prog id
          \<lparr> Severity = ''HIGH'', Type = ''OS'', Description = ''d'',
            PackageName = ''p'', ResourceName = ''r'' \<rparr>) config))"
  by (simp add: processVulnerability_prog_def ToUpper_examples rank_known config_def)


section \<open>No torn reads\<close>

lemma quiet_run: "quiet p \<Longrightarrow> snd (run p c) = c"
  by (induction p arbitrary: c) auto

lemma classes_disjoint:
  "\<not> (quiet p \<and> inRead p)" "\<not> (quiet p \<and> inWrite p)" "\<not> (inRead p \<and> inWrite p)"
  by (induction p) auto

lemma count_update:
  "i < length xs \<Longrightarrow>
     length (filter P (xs[i := y])) + (if P (xs ! i) then 1 else 0)
       = length (filter P xs) + (if P y then 1 else 0)"
proof (induction xs arbitrary: i)
  case Nil
  then show ?case by simp
next
  case (Cons a xs)
  then show ?case by (cases i) auto
qed

lemma unique_index:
  "length (filter P xs) \<le> 1 \<Longrightarrow> i < length xs \<Longrightarrow> j < length xs \<Longrightarrow>
     P (xs ! i) \<Longrightarrow> P (xs ! j) \<Longrightarrow> i = j"
proof (induction xs arbitrary: i j)
  case Nil
  then show ?case by simp
next
  case (Cons a xs)
  show ?case
  proof (cases i; cases j)
    fix i' j' assume "i = Suc i'" "j = Suc j'"
    with Cons show ?thesis by (auto split: if_splits)
  next
    fix j' assume "i = 0" "j = Suc j'"
    with Cons.prems have "P a" "P (xs ! j')" "j' < length xs" "filter P xs = []" by auto
    then show ?thesis by (metis filter_empty_conv nth_mem)
  next
    fix i' assume "i = Suc i'" "j = 0"
    with Cons.prems have "P a" "P (xs ! i')" "i' < length xs" "filter P xs = []" by auto
    then show ?thesis by (metis filter_empty_conv nth_mem)
  qed simp
qed

lemma count_pos: "i < length xs \<Longrightarrow> P (xs ! i) \<Longrightarrow> 0 < length (filter P xs)"
  by (metis filter_empty_conv length_greater_0_conv nth_mem)

lemma count_zero: "length (filter P xs) = 0 \<Longrightarrow> j < length xs \<Longrightarrow> \<not> P (xs ! j)"
  using count_pos by fastforce

lemma agrees_snoc:
  "agrees (h @ [e]) c \<longleftrightarrow> agrees h c \<and> (\<forall>f x. e = Loaded f x \<longrightarrow> x = load f c)"
  by (auto simp: agrees_def)

text \<open>Every step keeps the invariant; one case for each operation.\<close>

lemma quiet_events: "quiet p \<Longrightarrow> fst (run p c) = fst (run p c')"
  by (induction p arbitrary: c c') auto

lemma step_Inv:
  assumes I: "Inv C ps s"
  shows "Inv C ps (step i s)"
proof (cases "length (pool s) \<le> i \<or> fault s")
  case True
  then show ?thesis using I by (simp add: step_def)
next
  case False
  then have i: "i < length (pool s)" and nf: "\<not> fault s" by simp_all
  obtain p h where t: "pool s ! i = (p, h)" by (cases "pool s ! i")
  from I have rd: "readers s = length (filter (\<lambda>t. inRead (fst t)) (pool s))"
    and wr: "length (filter (\<lambda>t. inWrite (fst t)) (pool s)) = (if writer s then 1 else 0)"
    and ex: "writer s \<longrightarrow> readers s = 0"
    and cm: "\<not> writer s \<longrightarrow> shared s \<in> C"
    and ln: "length ps = length (pool s)"
    and al: "\<forall>j < length (pool s). tinv C (shared s) (ps ! j) (pool s ! j)"
    unfolding Inv_def by blast+
  from al i t have ti: "tinv C (shared s) (ps ! i) (p, h)" by metis
  have cr: "\<And>y. length (filter (\<lambda>t. inRead (fst t)) ((pool s)[i := y])) + (if inRead p then 1 else 0)
      = length (filter (\<lambda>t. inRead (fst t)) (pool s)) + (if inRead (fst y) then 1 else 0)"
    using count_update [OF i, of "\<lambda>t. inRead (fst t)"] t by simp
  have cw: "\<And>y. length (filter (\<lambda>t. inWrite (fst t)) ((pool s)[i := y])) + (if inWrite p then 1 else 0)
      = length (filter (\<lambda>t. inWrite (fst t)) (pool s)) + (if inWrite (fst y) then 1 else 0)"
    using count_update [OF i, of "\<lambda>t. inWrite (fst t)"] t by simp
  have same: "\<And>y j. j < length (pool s) \<Longrightarrow> tinv C (shared s) (ps ! i) y \<Longrightarrow>
      tinv C (shared s) (ps ! j) ((pool s)[i := y] ! j)"
    using al by (metis nth_list_update_eq nth_list_update_neq)
  show ?thesis
  proof (cases p)
    case Return
    then show ?thesis using I i nf t by (simp add: step_def)
  next
    case (DoRLock q)
    with ti have q: "inRead q" "h = []" "ps ! i = DoRLock q"
      by (auto simp: tinv_def fresh_def)
    show ?thesis
    proof (cases "writer s")
      case True
      then show ?thesis using I i nf t DoRLock by (simp add: step_def)
    next
      case False
      have nr: "\<not> inWrite q" using q classes_disjoint by auto
      have "tinv C (shared s) (ps ! i) (q, h @ [RLock])"
        using q by (simp add: tinv_def agrees_def)
      then show ?thesis
        using False i nf t DoRLock q nr rd wr cm ln cr [of "(q, h @ [RLock])"]
          cw [of "(q, h @ [RLock])"] same
        by (simp add: step_def advance_def Inv_def)
    qed
  next
    case (DoRUnlock q)
    with ti have q: "quiet q" "agrees h (shared s)"
        "h @ RUnlock # fst (run q (shared s)) = fst (run (ps ! i) (shared s))"
      by (auto simp: tinv_def fresh_def)
    have pos: "0 < readers s"
      using rd count_pos [OF i, of "\<lambda>t. inRead (fst t)"] t DoRUnlock q by simp
    with ex cm have c: "shared s \<in> C" "\<not> writer s" by auto
    have nr: "\<not> inRead q" "\<not> inWrite q" using q classes_disjoint by auto
    have "tinv C (shared s) (ps ! i) (q, h @ [RUnlock])"
      using q c by (auto simp: tinv_def agrees_snoc)
    then show ?thesis
      using pos c i nf t DoRUnlock q nr rd wr ln cr [of "(q, h @ [RUnlock])"]
        cw [of "(q, h @ [RUnlock])"] same
      by (simp add: step_def advance_def Inv_def)
  next
    case (DoLock q)
    with ti have q: "inWrite q" "h = []" "\<forall>c. snd (run q c) \<in> C" "ps ! i = DoLock q"
      by (auto simp: tinv_def fresh_def)
    show ?thesis
    proof (cases "writer s \<or> 0 < readers s")
      case True
      then show ?thesis using I i nf t DoLock by (simp add: step_def)
    next
      case False
      with cm have c: "shared s \<in> C" by simp
      have nr: "\<not> inRead q" using q classes_disjoint by auto
      have "tinv C (shared s) (ps ! i) (q, h @ [Lock])"
        using q c by (auto simp: tinv_def)
      then show ?thesis
        using False i nf t DoLock q nr rd wr ln cr [of "(q, h @ [Lock])"]
          cw [of "(q, h @ [Lock])"] same
        by (simp add: step_def advance_def Inv_def)
    qed
  next
    case (DoUnlock q)
    with ti have q: "quiet q" "snd (run q (shared s)) \<in> C" "\<forall>f x. Loaded f x \<notin> set h"
      and "\<exists>c0 \<in> C. h @ Unlock # fst (run q (shared s)) = fst (run (ps ! i) c0)"
      by (auto simp: tinv_def fresh_def)
    then obtain c0 where c0: "c0 \<in> C" "h @ Unlock # fst (run q (shared s)) = fst (run (ps ! i) c0)"
      by blast
    have w: "writer s"
      using wr count_pos [OF i, of "\<lambda>t. inWrite (fst t)"] t DoUnlock q by (auto split: if_splits)
    have c: "shared s \<in> C" using q by (simp add: quiet_run)
    have nr: "\<not> inRead q" "\<not> inWrite q" using q classes_disjoint by auto
    have "agrees (h @ [Unlock]) c0 \<and> (h @ [Unlock]) @ fst (run q c0) = fst (run (ps ! i) c0)"
      using q c0 quiet_events [OF q(1), of c0 "shared s"] by (simp add: agrees_def)
    then have "tinv C (shared s) (ps ! i) (q, h @ [Unlock])"
      using q c0 by (auto simp: tinv_def)
    then show ?thesis
      using w c ex i nf t DoUnlock q nr rd wr ln cr [of "(q, h @ [Unlock])"]
        cw [of "(q, h @ [Unlock])"] same
      by (simp add: step_def advance_def Inv_def)
  next
    case (Assign f x q)
    with ti have q: "inWrite q" "snd (run q (store f x (shared s))) \<in> C"
        "\<forall>f x. Loaded f x \<notin> set h"
        "\<exists>c0 \<in> C. h @ Stored f x # fst (run q (store f x (shared s))) = fst (run (ps ! i) c0)"
      by (auto simp: tinv_def fresh_def)
    have w: "writer s"
      using wr count_pos [OF i, of "\<lambda>t. inWrite (fst t)"] t Assign q by (auto split: if_splits)
    with ex rd have r0: "length (filter (\<lambda>t. inRead (fst t)) (pool s)) = 0" by simp
    have nr: "\<not> inRead q" using q classes_disjoint by auto
    have new: "tinv C (store f x (shared s)) (ps ! i) (q, h @ [Stored f x])"
      using q by (simp add: tinv_def)
    have rest: "tinv C (store f x (shared s)) (ps ! j) (pool s ! j)"
      if j: "j < length (pool s)" "j \<noteq> i" for j
    proof -
      have a: "\<not> inRead (fst (pool s ! j))"
        using count_zero [OF r0 j(1)] .
      have le: "length (filter (\<lambda>t. inWrite (fst t)) (pool s)) \<le> 1"
        using wr by simp
      have b: "\<not> inWrite (fst (pool s ! j))"
        using unique_index [OF le i j(1)] j(2) t Assign q by auto
      from al j have "tinv C (shared s) (ps ! j) (pool s ! j)" by simp
      with a b show ?thesis
        by (cases "pool s ! j") (auto simp: tinv_def)
    qed
    have all: "\<forall>j < length (pool s).
        tinv C (store f x (shared s)) (ps ! j) ((pool s)[i := (q, h @ [Stored f x])] ! j)"
      using new rest by (metis nth_list_update_eq nth_list_update_neq)
    show ?thesis
      using w ex i nf t Assign q nr rd wr ln cr [of "(q, h @ [Stored f x])"]
        cw [of "(q, h @ [Stored f x])"] all
      by (simp add: step_def advance_def Inv_def)
  next
    case (Load f k)
    with ti have q: "\<forall>x. inRead (k x)" "agrees h (shared s)"
        "h @ Loaded f (load f (shared s)) # fst (run (k (load f (shared s))) (shared s))
          = fst (run (ps ! i) (shared s))"
      by (auto simp: tinv_def fresh_def)
    let ?y = "(k (load f (shared s)), h @ [Loaded f (load f (shared s))])"
    have nr: "\<not> inWrite (k (load f (shared s)))" using q classes_disjoint by auto
    have "tinv C (shared s) (ps ! i) ?y"
      using q by (simp add: tinv_def agrees_snoc)
    then show ?thesis
      using i nf t Load q nr rd wr ex cm ln cr [of ?y] cw [of ?y] same
      by (simp add: step_def advance_def Inv_def)
  next
    case (CallSendToSlack channel v q)
    let ?y = "(q, h @ [SendToSlack channel v])"
    have "tinv C (shared s) (ps ! i) ?y"
      using ti CallSendToSlack by (auto simp: tinv_def fresh_def agrees_snoc)
    then show ?thesis
      using i nf t CallSendToSlack rd wr ex cm ln cr [of ?y] cw [of ?y] same
      by (simp add: step_def advance_def Inv_def)
  next
    case (CallExecute d q)
    let ?y = "(q, h @ [Execute d])"
    have "tinv C (shared s) (ps ! i) ?y"
      using ti CallExecute by (auto simp: tinv_def fresh_def agrees_snoc)
    then show ?thesis
      using i nf t CallExecute rd wr ex cm ln cr [of ?y] cw [of ?y] same
      by (simp add: step_def advance_def Inv_def)
  qed
qed

lemma exec_Inv: "Inv C ps s \<Longrightarrow> Inv C ps (exec sched s)"
  unfolding exec_def by (induction sched arbitrary: s) (simp_all add: step_Inv)

lemma handler_not_in_section: "\<not> inRead (handler U r) \<and> \<not> inWrite (handler U r)"
  by (cases r) (simp_all add: POST_config_prog_def GET_config_prog_def processVulnerability_prog_def)

lemma handler_fresh: "r \<in> set reqs \<Longrightarrow> fresh (set (committed reqs)) (handler U r)"
proof (cases r)
  case (POST form)
  assume "r \<in> set reqs"
  with POST have "POST_config form config \<in> set (committed reqs)"
    by (force simp: committed_def)
  then have "\<forall>c. POST_config form c \<in> set (committed reqs)"
    using POST_config_any by metis
  then show ?thesis
    using POST by (simp add: fresh_def POST_config_prog_def POST_config_def)
next
  case GET
  then show ?thesis by (simp add: fresh_def GET_config_prog_def)
next
  case (Finding v)
  then show ?thesis
    by (simp add: fresh_def processVulnerability_prog_def processVulnerability_else_def Let_def)
qed

lemma start_Inv:
  "Inv (set (committed reqs)) (map (handler U) reqs) (start (map (handler U) reqs))"
proof -
  let ?s = "start (map (handler U) reqs)"
  have a: "length (filter (\<lambda>t. inRead (fst t)) (pool ?s)) = 0"
    by (simp add: start_def filter_empty_conv handler_not_in_section)
  have b: "length (filter (\<lambda>t. inWrite (fst t)) (pool ?s)) = 0"
    by (simp add: start_def filter_empty_conv handler_not_in_section)
  have c: "shared ?s \<in> set (committed reqs)"
    by (simp add: start_def committed_def)
  have d: "\<forall>j < length (pool ?s).
      tinv (set (committed reqs)) (shared ?s) (map (handler U) reqs ! j) (pool ?s ! j)"
    by (simp add: start_def tinv_def handler_fresh)
  have l: "length (map (handler U) reqs) = length (pool ?s)"
    by (simp add: start_def)
  have e: "\<not> fault ?s" "\<not> writer ?s" "readers ?s = 0"
    by (simp_all add: start_def)
  show ?thesis
    unfolding Inv_def using a b c d e l by simp
qed

lemma length_pool_step: "length (pool (step i s)) = length (pool s)"
  by (simp add: step_def advance_def split: prog.splits)

lemma length_pool_exec: "length (pool (exec sched s)) = length (pool s)"
  unfolding exec_def by (induction sched arbitrary: s) (simp_all add: length_pool_step)

text \<open>
  C6. Let any number of \<^verbatim>\<open>POST /config\<close> requests (with any forms), \<^verbatim>\<open>GET /config\<close>
  requests and findings be handled by goroutines that run together, and let them
  be interleaved in any way, one lock operation or one access to one field at a
  time. Then no unlock ever fails, and at every moment the values that a goroutine
  has read from the configuration are the values of one complete configuration:
  the defaults, or the configuration installed by one of the \<^verbatim>\<open>POST\<close> requests. In
  particular the channel and the threshold that a goroutine has read for \<open>OS\<close>
  (for \<open>APP\<close>) are the channel and the threshold of one such configuration.
\<close>

theorem no_torn_read:
  assumes "i < length reqs"
  shows "\<not> fault (exec sched (start (map (handler U) reqs)))
   \<and> (\<exists>c \<in> set (committed reqs). \<forall>f x.
        Loaded f x \<in> set (history i (exec sched (start (map (handler U) reqs))))
          \<longrightarrow> x = load f c)
   \<and> (\<forall>channel m.
        Loaded F_OSChannelName channel
          \<in> set (history i (exec sched (start (map (handler U) reqs))))
        \<and> Loaded F_OSMinSeverity m
          \<in> set (history i (exec sched (start (map (handler U) reqs))))
        \<longrightarrow> (\<exists>c \<in> set (committed reqs). channel = OSChannelName c \<and> m = OSMinSeverity c))
   \<and> (\<forall>channel m.
        Loaded F_AppChannelName channel
          \<in> set (history i (exec sched (start (map (handler U) reqs))))
        \<and> Loaded F_AppMinSeverity m
          \<in> set (history i (exec sched (start (map (handler U) reqs))))
        \<longrightarrow> (\<exists>c \<in> set (committed reqs). channel = AppChannelName c \<and> m = AppMinSeverity c))"
proof -
  let ?C = "set (committed reqs)"
  let ?s = "exec sched (start (map (handler U) reqs))"
  have I: "Inv ?C (map (handler U) reqs) ?s"
    using start_Inv by (rule exec_Inv)
  have len: "i < length (pool ?s)"
    using assms by (simp add: length_pool_exec start_def)
  obtain p h where t: "pool ?s ! i = (p, h)" by (cases "pool ?s ! i")
  have ti: "tinv ?C (shared ?s) (map (handler U) reqs ! i) (p, h)"
    using I len t unfolding Inv_def by metis
  have c0: "config \<in> ?C" by (simp add: committed_def)
  have "\<exists>c \<in> ?C. agrees h c"
  proof -
    consider "h = []" | "inRead p" "agrees h (shared ?s)" | "\<forall>f x. Loaded f x \<notin> set h"
      | "\<exists>c' \<in> ?C. agrees h c'"
      using ti unfolding tinv_def by auto
    then show ?thesis
    proof cases
      case 1
      then show ?thesis using c0 by (auto simp: agrees_def)
    next
      case 2
      have "0 < readers ?s"
        using I count_pos [OF len, of "\<lambda>t. inRead (fst t)"] t 2 unfolding Inv_def by simp
      then have "shared ?s \<in> ?C"
        using I unfolding Inv_def by auto
      then show ?thesis using 2 by blast
    next
      case 3
      then show ?thesis using c0 by (auto simp: agrees_def)
    next
      case 4
      then show ?thesis .
    qed
  qed
  then obtain c where c: "c \<in> ?C" "agrees (history i ?s) c"
    using t by (auto simp: history_def)
  have one: "\<exists>c \<in> ?C. \<forall>f x. Loaded f x \<in> set (history i ?s) \<longrightarrow> x = load f c"
    using c unfolding agrees_def by blast
  have os: "\<exists>c \<in> ?C. channel = OSChannelName c \<and> m = OSMinSeverity c"
    if "Loaded F_OSChannelName channel \<in> set (history i ?s)"
      and "Loaded F_OSMinSeverity m \<in> set (history i ?s)" for channel m
    using c that unfolding agrees_def by (metis load.simps(1) load.simps(2))
  have app: "\<exists>c \<in> ?C. channel = AppChannelName c \<and> m = AppMinSeverity c"
    if "Loaded F_AppChannelName channel \<in> set (history i ?s)"
      and "Loaded F_AppMinSeverity m \<in> set (history i ?s)" for channel m
    using c that unfolding agrees_def by (metis load.simps(3) load.simps(4))
  have nf: "\<not> fault ?s" using I unfolding Inv_def by blast
  show ?thesis
    using nf one os app by blast
qed

theorem no_torn_read_witness:
  "(1::nat) < length
      [POST (map_of [(''os_channel'', ''#sec''), (''os_severity'', ''LOW''),
                     (''app_channel'', ''#app''), (''app_severity'', ''CRITICAL'')]),
       Finding \<lparr> Severity = ''low'', Type = ''OS'', Description = ''d'',
                 PackageName = ''p'', ResourceName = ''r'' \<rparr>]
   \<and> history 1 (exec [0, 0, 0, 1, 0, 0, 0, 1, 1, 1, 1, 1]
        (start (map (handler id)
          [POST (map_of [(''os_channel'', ''#sec''), (''os_severity'', ''LOW''),
                         (''app_channel'', ''#app''), (''app_severity'', ''CRITICAL'')]),
           Finding \<lparr> Severity = ''low'', Type = ''OS'', Description = ''d'',
                     PackageName = ''p'', ResourceName = ''r'' \<rparr>])))
      = [RLock, Loaded F_OSMinSeverity ''LOW'', Loaded F_OSChannelName ''#sec'',
         SendToSlack ''#sec'' \<lparr> Severity = ''low'', Type = ''OS'', Description = ''d'',
                     PackageName = ''p'', ResourceName = ''r'' \<rparr>, RUnlock]
   \<and> \<not> fault (exec [0, 0, 0, 1, 0, 0, 0, 1, 1, 1, 1, 1]
        (start (map (handler id)
          [POST (map_of [(''os_channel'', ''#sec''), (''os_severity'', ''LOW''),
                         (''app_channel'', ''#app''), (''app_severity'', ''CRITICAL'')]),
           Finding \<lparr> Severity = ''low'', Type = ''OS'', Description = ''d'',
                     PackageName = ''p'', ResourceName = ''r'' \<rparr>])))
   \<and> (\<exists>c \<in> set (committed
          [POST (map_of [(''os_channel'', ''#sec''), (''os_severity'', ''LOW''),
                         (''app_channel'', ''#app''), (''app_severity'', ''CRITICAL'')]),
           Finding \<lparr> Severity = ''low'', Type = ''OS'', Description = ''d'',
                     PackageName = ''p'', ResourceName = ''r'' \<rparr>]).
        ''#sec'' = OSChannelName c \<and> ''LOW'' = OSMinSeverity c)"
proof -
  let ?reqs = "[POST (map_of [(''os_channel'', ''#sec''), (''os_severity'', ''LOW''),
                         (''app_channel'', ''#app''), (''app_severity'', ''CRITICAL'')]),
           Finding \<lparr> Severity = ''low'', Type = ''OS'', Description = ''d'',
                     PackageName = ''p'', ResourceName = ''r'' \<rparr>]"
  let ?sched = "[0, 0, 0, 1, 0, 0, 0, 1, 1, 1, 1, 1] :: nat list"
  have h: "history 1 (exec ?sched (start (map (handler id) ?reqs)))
      = [RLock, Loaded F_OSMinSeverity ''LOW'', Loaded F_OSChannelName ''#sec'',
         SendToSlack ''#sec'' \<lparr> Severity = ''low'', Type = ''OS'', Description = ''d'',
                     PackageName = ''p'', ResourceName = ''r'' \<rparr>, RUnlock]"
    by (simp add: history_def exec_def step_def advance_def start_def POST_config_prog_def
        processVulnerability_prog_def PostForm_def ToUpper_examples rank_known)
  have l: "(1::nat) < length ?reqs" by simp
  from no_torn_read [OF l, of ?sched id]
  have "\<not> fault (exec ?sched (start (map (handler id) ?reqs)))"
    and "\<exists>c \<in> set (committed ?reqs). ''#sec'' = OSChannelName c \<and> ''LOW'' = OSMinSeverity c"
    unfolding h by simp_all
  with h l show ?thesis by blast
qed


section \<open>Every handler acts on one configuration\<close>

text \<open>
  In every interleaving, what a goroutine has done so far is the beginning of what
  its handler does when it runs alone on one complete configuration. So a finding
  that is sent is sent as \<open>processVulnerability\<close> decides on that configuration,
  and the configuration that \<^verbatim>\<open>GET /config\<close> renders is a complete one.
\<close>

lemma history_run_prefix:
  assumes "i < length reqs"
  shows "\<exists>c \<in> set (committed reqs). \<exists>rest.
           history i (exec sched (start (map (handler U) reqs))) @ rest
             = fst (run (handler U (reqs ! i)) c)"
proof -
  let ?C = "set (committed reqs)"
  let ?s = "exec sched (start (map (handler U) reqs))"
  have I: "Inv ?C (map (handler U) reqs) ?s"
    using start_Inv by (rule exec_Inv)
  have len: "i < length (pool ?s)"
    using assms by (simp add: length_pool_exec start_def)
  obtain p h where t: "pool ?s ! i = (p, h)" by (cases "pool ?s ! i")
  have ti: "tinv ?C (shared ?s) (handler U (reqs ! i)) (p, h)"
    using I len t assms unfolding Inv_def by (metis nth_map)
  have c0: "config \<in> ?C" by (simp add: committed_def)
  consider "h = []"
    | "inRead p" "h @ fst (run p (shared ?s)) = fst (run (handler U (reqs ! i)) (shared ?s))"
    | "\<exists>c \<in> ?C. \<exists>rest. h @ rest = fst (run (handler U (reqs ! i)) c)"
    using ti unfolding tinv_def by auto
  then have "\<exists>c \<in> ?C. \<exists>rest. h @ rest = fst (run (handler U (reqs ! i)) c)"
  proof cases
    case 1
    then show ?thesis using c0 by auto
  next
    case 2
    have "0 < readers ?s"
      using I count_pos [OF len, of "\<lambda>t. inRead (fst t)"] t 2 unfolding Inv_def by simp
    then have "shared ?s \<in> ?C"
      using I unfolding Inv_def by auto
    then show ?thesis using 2 by blast
  next
    case 3
    then show ?thesis .
  qed
  then show ?thesis using t by (simp add: history_def)
qed

lemma dispatch_is_decision:
  assumes "i < length reqs" and "reqs ! i = Finding v"
    and "SendToSlack channel w \<in> set (history i (exec sched (start (map (handler U) reqs))))"
  shows "\<exists>c \<in> set (committed reqs). processVulnerability U c v = Some (channel, w)"
proof -
  obtain c rest where c: "c \<in> set (committed reqs)"
    and r: "history i (exec sched (start (map (handler U) reqs))) @ rest
             = fst (run (processVulnerability_prog U v) c)"
    using history_run_prefix [OF assms(1), of sched U] assms(2) by auto
  have "SendToSlack channel w \<in> set (fst (run (processVulnerability_prog U v) c))"
    using assms(3) r by (metis Un_iff set_append)
  then have "processVulnerability U c v = Some (channel, w)"
    unfolding run_processVulnerability_prog
    by (auto split: option.splits if_splits)
  with c show ?thesis by blast
qed

lemma rendered_is_committed:
  assumes "i < length reqs" and "reqs ! i = GET"
    and "Execute d \<in> set (history i (exec sched (start (map (handler U) reqs))))"
  shows "d \<in> set (committed reqs)"
proof -
  obtain c rest where c: "c \<in> set (committed reqs)"
    and r: "history i (exec sched (start (map (handler U) reqs))) @ rest
             = fst (run GET_config_prog c)"
    using history_run_prefix [OF assms(1), of sched U] assms(2) by auto
  have "Execute d \<in> set (fst (run GET_config_prog c))"
    using assms(3) r by (metis Un_iff set_append)
  then have "d = c"
    by (cases c) (simp add: GET_config_prog_def)
  with c show ?thesis by simp
qed

end
